theory Spec2Isabelle
  imports Main
begin

section \<open>Data model of \<open>deadlockAlgorithm.ts\<close>\<close>

text \<open>
  The amounts of a matrix (totals, allocations, requests) are integers, as the
  specification has it: integers that a double holds exactly. The numbers the code
  computes from them are doubles: an integer, or an infinity when a sum overflows (and
  \<open>NaN\<close>, which the sum of opposite infinities would be). Minus zero is not told apart from
  zero. Strings are byte strings (UTF-8).
\<close>

datatype js_number = Finite int | PosInfinity | NegInfinity | NaN

text \<open>The number of binary digits of a positive integer.\<close>

function bit_length :: "int \<Rightarrow> nat" where
  "bit_length m = (if m \<le> 0 then 0 else Suc (bit_length (m div 2)))"
  by pat_completeness auto
termination
  by (relation "measure nat") auto

declare bit_length.simps [simp del]

text \<open>
  The double nearest to an integer: itself below \<open>2^53\<close>; beyond, the 53 leading binary
  digits, rounded to nearest with ties to the even mantissa; an infinity from \<open>2^1024\<close> on.
\<close>

definition round_to_double :: "int \<Rightarrow> js_number" where
  "round_to_double x =
     (let m = \<bar>x\<bar> in
      if m < 2 ^ 53 then Finite x
      else
        (let e = bit_length m - 53;
             q = m div 2 ^ e;
             r = m mod 2 ^ e;
             q' = (if 2 ^ e < 2 * r \<or> (2 * r = 2 ^ e \<and> odd q) then q + 1 else q);
             y = q' * 2 ^ e
         in if 2 ^ 1024 \<le> y then (if x < 0 then NegInfinity else PosInfinity)
            else Finite (if x < 0 then - y else y)))"

text \<open>\<open>a + b\<close>, \<open>a - b\<close> and \<open>a > b\<close> on numbers.\<close>

fun js_add :: "js_number \<Rightarrow> js_number \<Rightarrow> js_number" where
  "js_add (Finite a) (Finite b) = round_to_double (a + b)"
| "js_add NaN b = NaN"
| "js_add a NaN = NaN"
| "js_add PosInfinity NegInfinity = NaN"
| "js_add NegInfinity PosInfinity = NaN"
| "js_add PosInfinity b = PosInfinity"
| "js_add a PosInfinity = PosInfinity"
| "js_add NegInfinity b = NegInfinity"
| "js_add a NegInfinity = NegInfinity"

fun js_negate :: "js_number \<Rightarrow> js_number" where
  "js_negate (Finite a) = Finite (- a)"
| "js_negate PosInfinity = NegInfinity"
| "js_negate NegInfinity = PosInfinity"
| "js_negate NaN = NaN"

definition js_sub :: "js_number \<Rightarrow> js_number \<Rightarrow> js_number" where
  "js_sub a b = js_add a (js_negate b)"

fun js_greater :: "js_number \<Rightarrow> js_number \<Rightarrow> bool" where
  "js_greater (Finite a) (Finite b) = (b < a)"
| "js_greater NaN b = False"
| "js_greater a NaN = False"
| "js_greater PosInfinity PosInfinity = False"
| "js_greater PosInfinity b = True"
| "js_greater a PosInfinity = False"
| "js_greater NegInfinity b = False"
| "js_greater a NegInfinity = True"

text \<open>
  The values a property can hold here: \<open>undefined\<close>, \<open>null\<close> (what JSON writes for a
  number that is not finite), a number, or a value that is not a number. The last arises
  from the properties a plain object inherits from \<open>Object.prototype\<close>: such a property is a
  function or an object, and adding a number to it yields a string, its text followed by
  the number's. \<open>NonNumber k ns\<close> is the value inherited under the name \<open>k\<close> followed by
  the numbers \<open>ns\<close>; it is truthy and converts to \<open>NaN\<close>.
\<close>

datatype js_value = Undefined | Null | Num js_number | NonNumber string "int list"

text \<open>The property names of \<open>Object.prototype\<close>.\<close>

definition inherited_names :: "string list" where
  "inherited_names =
     [''constructor'', ''__defineGetter__'', ''__defineSetter__'', ''hasOwnProperty'',
      ''__lookupGetter__'', ''__lookupSetter__'', ''isPrototypeOf'',
      ''propertyIsEnumerable'', ''toString'', ''valueOf'', ''__proto__'',
      ''toLocaleString'']"

text \<open>
  A plain object created by \<open>{}\<close> and used as a dictionary is the finite map of its own
  properties. \<open>obj[k]\<close> reads the own property, else the inherited one, else \<open>undefined\<close>.
  \<open>obj[k] = v\<close> stores an own property, except under the name \<open>__proto__\<close>, whose inherited
  setter ignores a value that is not an object.
\<close>

type_synonym plain_object = "string \<rightharpoonup> js_value"

definition get_property :: "plain_object \<Rightarrow> string \<Rightarrow> js_value" where
  "get_property obj k =
     (case obj k of
        Some v \<Rightarrow> v
      | None \<Rightarrow> if k \<in> set inherited_names then NonNumber k [] else Undefined)"

definition set_property :: "plain_object \<Rightarrow> string \<Rightarrow> js_value \<Rightarrow> plain_object" where
  "set_property obj k v = (if k = ''__proto__'' then obj else obj(k \<mapsto> v))"

text \<open>
  The allocation and request dictionaries of a process are only ever enumerated: such an
  object is kept as the list of its own entries in the order \<open>Object.entries\<close> yields them.
\<close>

type_synonym js_object = "(string \<times> int) list"

record Process =
  pid :: string
  allocation :: js_object
  request :: js_object

record Resource =
  rid :: string
  total :: int
  available :: js_value
  isMultiInstance :: bool

text \<open>
  \<open>Resource\<close> objects are the only objects the code ever writes to (the assignments to
  \<open>resource.available\<close>), so they live in an explicit store: a reference is an index into
  the list of all allocated resource objects. Processes and their two dictionaries are
  never assigned to anywhere in the source and are kept as values.
\<close>

type_synonym ref = nat
type_synonym heap = "Resource list"

record AllocationMatrix =
  processes :: "Process list"
  resources :: "ref list"

record DetectionStep =
  description :: string
  remainingProcesses :: "string list"
  availableResources :: plain_object
  processedThisRound :: "string list"

record DetectionResult =
  deadlocked :: "string list"
  safeSequence :: "string list option"
  steps :: "DetectionStep list"

section \<open>calculateAvailableResources\<close>

text \<open>\<open>resource.available = resource.total\<close> on the object behind reference \<open>a\<close>.\<close>

definition reset_available :: "ref \<Rightarrow> heap \<Rightarrow> heap" where
  "reset_available a h = h[a := (h ! a)\<lparr>available := Num (Finite (total (h ! a)))\<rparr>]"

text \<open>The number a value converts to in arithmetic.\<close>

fun to_number :: "js_value \<Rightarrow> js_number" where
  "to_number (Num n) = n"
| "to_number Null = Finite 0"
| "to_number Undefined = NaN"
| "to_number (NonNumber k ns) = NaN"

text \<open>
  The body of the inner \<open>forEach\<close>: \<open>resources.find(r => r.id === resourceId)\<close> yields the
  first reference of the array whose object carries the id; when there is one,
  \<open>resource.available -= allocated\<close> subtracts the amount from that object's field.
\<close>

definition subtract_allocated :: "ref list \<Rightarrow> string \<times> int \<Rightarrow> heap \<Rightarrow> heap" where
  "subtract_allocated rs entry h =
     (case entry of (resourceId, allocated) \<Rightarrow>
        (case find (\<lambda>a. rid (h ! a) = resourceId) rs of
           None \<Rightarrow> h
         | Some a \<Rightarrow>
             h[a := (h ! a)\<lparr>available :=
                      Num (js_sub (to_number (available (h ! a))) (Finite allocated))\<rparr>]))"

text \<open>
  \<open>[...matrix.resources]\<close> copies the array only: the new array holds the same references.
  The function returns the store after its writes and the new array.
\<close>

definition calculateAvailableResources :: "heap \<Rightarrow> AllocationMatrix \<Rightarrow> heap \<times> ref list" where
  "calculateAvailableResources h matrix =
     (let rs = resources matrix;
          h1 = fold reset_available rs h;
          h2 = fold (\<lambda>process. fold (subtract_allocated rs) (allocation process))
                    (processes matrix) h1
      in (h2, rs))"

section \<open>detectDeadlock\<close>

text \<open>
  \<open>JSON.parse(JSON.stringify(matrix))\<close>: every element of the resource array becomes a
  fresh object with the same field values (an object listed twice is copied twice), except
  that a number that is not finite comes back as \<open>null\<close>; the processes, whose amounts are
  integers, are copied value by value.
\<close>

fun json_copy :: "js_value \<Rightarrow> js_value" where
  "json_copy (Num (Finite x)) = Num (Finite x)"
| "json_copy (Num n) = Null"
| "json_copy v = v"

definition deep_copy :: "heap \<Rightarrow> AllocationMatrix \<Rightarrow> heap \<times> AllocationMatrix" where
  "deep_copy h matrix =
     (h @ map (\<lambda>a. (h ! a)\<lparr>available := json_copy (available (h ! a))\<rparr>) (resources matrix),
      \<lparr>processes = processes matrix,
       resources = [length h ..< length h + length (resources matrix)]\<rparr>)"

text \<open>\<open>v || 0\<close>: a falsy value (\<open>undefined\<close>, \<open>null\<close>, zero, \<open>NaN\<close>) reads as 0.\<close>

fun or_zero :: "js_value \<Rightarrow> js_value" where
  "or_zero Undefined = Num (Finite 0)"
| "or_zero Null = Num (Finite 0)"
| "or_zero (Num n) = (if n = Finite 0 \<or> n = NaN then Num (Finite 0) else Num n)"
| "or_zero (NonNumber k ns) = NonNumber k ns"

text \<open>
  \<open>requested > available\<close>, for a number on the left: a value that is not a number converts
  to \<open>NaN\<close> and the comparison is false.
\<close>

fun greater_than :: "int \<Rightarrow> js_value \<Rightarrow> bool" where
  "greater_than requested (Num n) = js_greater (Finite requested) n"
| "greater_than requested Null = (0 < requested)"
| "greater_than requested Undefined = False"
| "greater_than requested (NonNumber k ns) = False"

text \<open>
  \<open>v + allocated\<close>, for a number on the right: numbers are added, a value that is not a
  number turns the sum into a string concatenation.
\<close>

fun js_plus :: "js_value \<Rightarrow> int \<Rightarrow> js_value" where
  "js_plus (Num n) allocated = Num (js_add n (Finite allocated))"
| "js_plus Null allocated = Num (js_add (Finite 0) (Finite allocated))"
| "js_plus Undefined allocated = Num NaN"
| "js_plus (NonNumber k ns) allocated = NonNumber k (ns @ [allocated])"

text \<open>The working state of the loop.\<close>

record state =
  st_finished :: "string list"
  st_available :: plain_object
  st_safeSequence :: "string list"
  st_steps :: "DetectionStep list"

text \<open>\<open>Set.add\<close> on a set kept in insertion order.\<close>

definition set_add :: "string \<Rightarrow> string list \<Rightarrow> string list" where
  "set_add x xs = (if x \<in> set xs then xs else xs @ [x])"

text \<open>The \<open>forEach\<close> over the request entries that clears the flag \<open>canFinish\<close>.\<close>

definition canFinish :: "plain_object \<Rightarrow> Process \<Rightarrow> bool" where
  "canFinish av process =
     fold (\<lambda>entry flag. case entry of (resourceId, requested) \<Rightarrow>
             if requested \<le> 0 then flag
             else if greater_than requested (or_zero (get_property av resourceId)) then False
             else flag)
          (request process) True"

text \<open>The \<open>forEach\<close> over the allocation entries that releases them.\<close>

definition release :: "js_object \<Rightarrow> plain_object \<Rightarrow> plain_object" where
  "release alloc av =
     fold (\<lambda>entry m. case entry of (resourceId, allocated) \<Rightarrow>
             set_property m resourceId (js_plus (or_zero (get_property m resourceId)) allocated))
          alloc av"

definition admission_description :: "Process \<Rightarrow> string" where
  "admission_description process =
     (let d0 = ''Process '' @ pid process @ '' can be executed with the available resources.'';
          d1 = (if list_ex (\<lambda>val. val > 0) (map snd (request process))
                then d0 @ '' Its resource requests can be satisfied.'' else d0)
      in d1 @ '' After completion, '' @ pid process @ '' releases its resources.'')"

text \<open>The body of \<open>if (canFinish) { ... }\<close>.\<close>

definition admit :: "string list \<Rightarrow> state \<Rightarrow> Process \<Rightarrow> state" where
  "admit allProcessIds st process =
     (let fin = set_add (pid process) (st_finished st);
          av = release (allocation process) (st_available st)
      in \<lparr>st_finished = fin,
          st_available = av,
          st_safeSequence = st_safeSequence st @ [pid process],
          st_steps = st_steps st @
            [\<lparr>description = admission_description process,
              remainingProcesses = filter (\<lambda>i. i \<notin> set fin) allProcessIds,
              availableResources = av,
              processedThisRound = [pid process]\<rparr>]\<rparr>)"

text \<open>
  The \<open>for ... of\<close> loop of one round, with its \<open>continue\<close> and its \<open>break\<close>; the boolean
  is \<open>changeInLastIteration\<close>.
\<close>

fun scan :: "string list \<Rightarrow> state \<Rightarrow> Process list \<Rightarrow> state \<times> bool" where
  "scan allProcessIds st [] = (st, False)"
| "scan allProcessIds st (process # rest) =
     (if pid process \<in> set (st_finished st) then scan allProcessIds st rest
      else if canFinish (st_available st) process then (admit allProcessIds st process, True)
      else scan allProcessIds st rest)"

text \<open>\<open>Array.prototype.join\<close>.\<close>

fun join :: "string \<Rightarrow> string list \<Rightarrow> string" where
  "join sep [] = []"
| "join sep [x] = x"
| "join sep (x # y # zs) = x @ sep @ join sep (y # zs)"

text \<open>The separator of the success step: a space, U+2192 in UTF-8, a space.\<close>

definition arrow_separator :: string where
  "arrow_separator = [CHR '' '', CHR 0xE2, CHR 0x86, CHR 0x92, CHR '' '']"

definition deadlock_result :: "Process list \<Rightarrow> state \<Rightarrow> DetectionResult" where
  "deadlock_result procs st =
     (let dl = map pid (filter (\<lambda>p. pid p \<notin> set (st_finished st)) procs)
      in \<lparr>deadlocked = dl,
          safeSequence = None,
          steps = st_steps st @
            [\<lparr>description =
                ''No process can be satisfied with the available resources. Deadlock detected involving processes: ''
                @ join '', '' dl,
              remainingProcesses = dl,
              availableResources = st_available st,
              processedThisRound = []\<rparr>]\<rparr>)"

definition safe_result :: "state \<Rightarrow> DetectionResult" where
  "safe_result st =
     \<lparr>deadlocked = [],
      safeSequence = Some (st_safeSequence st),
      steps = (if length (st_steps st) > 1
               then st_steps st @
                 [\<lparr>description =
                     ''All processes have been executed successfully. System is in a safe state. Safe sequence: ''
                     @ join arrow_separator (st_safeSequence st),
                   remainingProcesses = [],
                   availableResources = st_available st,
                   processedThisRound = []\<rparr>]
               else st_steps st)\<rparr>"

lemma scan_changed:
  "scan ids st ps = (st', True) \<Longrightarrow>
     \<exists>p \<in> set ps. pid p \<notin> set (st_finished st) \<and> canFinish (st_available st) p \<and> st' = admit ids st p"
  by (induction ps) (auto split: if_splits)

lemma filter_length_less:
  "p \<in> set ps \<Longrightarrow> Q p \<Longrightarrow> \<not> R p \<Longrightarrow> (\<And>q. R q \<Longrightarrow> Q q) \<Longrightarrow>
     length (filter R ps) < length (filter Q ps)"
proof (induction ps)
  case Nil
  then show ?case by simp
next
  case (Cons a ps)
  have le: "length (filter R ps) \<le> length (filter Q ps)"
    using Cons.prems(4) by (induction ps) auto
  show ?case
  proof (cases "a = p")
    case True
    then show ?thesis using Cons.prems le by simp
  next
    case False
    then have "length (filter R ps) < length (filter Q ps)"
      using Cons by simp
    then show ?thesis using Cons.prems(4) by auto
  qed
qed

text \<open>
  The \<open>while (changeInLastIteration)\<close> loop: one round, then the deadlock test with its
  \<open>return\<close>, then the loop test.
\<close>

function rounds :: "Process list \<Rightarrow> state \<Rightarrow> DetectionResult" where
  "rounds procs st =
     (case scan (map pid procs) st procs of
        (st', changeInLastIteration) \<Rightarrow>
          if \<not> changeInLastIteration \<and> length (st_finished st') < length procs
          then deadlock_result procs st'
          else if changeInLastIteration then rounds procs st'
          else safe_result st')"
  by pat_completeness auto
termination
proof (relation "measure (\<lambda>(procs, st). length (filter (\<lambda>p. pid p \<notin> set (st_finished st)) procs))",
       goal_cases)
  case 1
  show ?case by simp
next
  case (2 procs st st' c)
  then have "scan (map pid procs) st procs = (st', True)" by auto
  then obtain p where p: "p \<in> set procs" "pid p \<notin> set (st_finished st)"
      "st' = admit (map pid procs) st p"
    using scan_changed by blast
  have fin: "set (st_finished st') = insert (pid p) (set (st_finished st))"
    using p by (auto simp: admit_def set_add_def Let_def)
  have "length (filter (\<lambda>q. pid q \<notin> set (st_finished st')) procs)
          < length (filter (\<lambda>q. pid q \<notin> set (st_finished st)) procs)"
    by (rule filter_length_less[OF p(1)]) (use p fin in auto)
  then show ?case by simp
qed

declare rounds.simps [simp del]

text \<open>The state before the first round, for the available amounts \<open>av\<close>.\<close>

definition initial_state :: "Process list \<Rightarrow> plain_object \<Rightarrow> state" where
  "initial_state procs av =
     \<lparr>st_finished = [],
      st_available = av,
      st_safeSequence = [],
      st_steps = [\<lparr>description = ''Initial available resources'',
                   remainingProcesses = map pid procs,
                   availableResources = av,
                   processedThisRound = []\<rparr>]\<rparr>"

text \<open>
  The \<open>forEach\<close> that fills \<open>availableResources\<close>, a fresh \<open>{}\<close>, from the resource objects:
  a later resource with the same id overwrites an earlier one.
\<close>

definition collect_available :: "heap \<Rightarrow> ref list \<Rightarrow> plain_object" where
  "collect_available h rs =
     fold (\<lambda>a m. set_property m (rid (h ! a)) (available (h ! a))) rs Map.empty"

definition detectDeadlock :: "heap \<Rightarrow> AllocationMatrix \<Rightarrow> heap \<times> DetectionResult" where
  "detectDeadlock h matrix =
     (case deep_copy h matrix of
        (h1, copied) \<Rightarrow>
          (case calculateAvailableResources h1 copied of
             (h2, rs) \<Rightarrow>
               (let workingMatrix = copied\<lparr>resources := rs\<rparr>;
                    av = collect_available h2 (resources workingMatrix)
                in (h2, rounds (processes workingMatrix)
                               (initial_state (processes workingMatrix) av)))))"

section \<open>generateResourceFlowGraph\<close>

text \<open>
  A node carries its id, its tag and the \<open>data\<close> object: the label and, for a resource
  node only, the instance count and the multi-instance flag.
\<close>

record GraphNode =
  node_id :: string
  node_type :: string
  node_label :: string
  node_instances :: "int option"
  node_isMultiInstance :: "bool option"

record GraphEdge =
  edge_id :: string
  source :: string
  target :: string
  edge_type :: string
  edge_amount :: int

record Graph =
  nodes :: "GraphNode list"
  edges :: "GraphEdge list"

definition process_node :: "Process \<Rightarrow> GraphNode" where
  "process_node process =
     \<lparr>node_id = pid process, node_type = ''process'', node_label = pid process,
      node_instances = None, node_isMultiInstance = None\<rparr>"

definition resource_node :: "Resource \<Rightarrow> GraphNode" where
  "resource_node resource =
     \<lparr>node_id = rid resource, node_type = ''resource'', node_label = rid resource,
      node_instances = Some (total resource),
      node_isMultiInstance = Some (isMultiInstance resource)\<rparr>"

definition allocation_edges_of :: "Process \<Rightarrow> GraphEdge list" where
  "allocation_edges_of process =
     map (\<lambda>entry. case entry of (resourceId, amount) \<Rightarrow>
            \<lparr>edge_id = resourceId @ ''-'' @ pid process,
             source = resourceId, target = pid process,
             edge_type = ''allocation'', edge_amount = amount\<rparr>)
         (filter (\<lambda>entry. snd entry > 0) (allocation process))"

definition request_edges_of :: "Process \<Rightarrow> GraphEdge list" where
  "request_edges_of process =
     map (\<lambda>entry. case entry of (resourceId, amount) \<Rightarrow>
            \<lparr>edge_id = pid process @ ''-'' @ resourceId,
             source = pid process, target = resourceId,
             edge_type = ''request'', edge_amount = amount\<rparr>)
         (filter (\<lambda>entry. snd entry > 0) (request process))"

text \<open>The function only reads; the store is returned as it was received.\<close>

definition generateResourceFlowGraph :: "heap \<Rightarrow> AllocationMatrix \<Rightarrow> heap \<times> Graph" where
  "generateResourceFlowGraph h matrix =
     (let ns = map process_node (processes matrix)
               @ map (\<lambda>a. resource_node (h ! a)) (resources matrix);
          allocationEdges = concat (map allocation_edges_of (processes matrix));
          requestEdges = concat (map request_edges_of (processes matrix))
      in (h, \<lparr>nodes = ns, edges = allocationEdges @ requestEdges\<rparr>))"

section \<open>Notions of the specification\<close>




text \<open>
  The amount an object holds for a key, an absent entry counting as 0. The keys of a
  JavaScript object are distinct, and then this is the one entry's amount.
\<close>

definition amount_of :: "js_object \<Rightarrow> string \<Rightarrow> int" where
  "amount_of obj k = sum_list (map snd (filter (\<lambda>entry. fst entry = k) obj))"

text \<open>The same with every amount taken in absolute value.\<close>

definition abs_amount_of :: "js_object \<Rightarrow> string \<Rightarrow> int" where
  "abs_amount_of obj k = sum_list (map (\<lambda>entry. \<bar>snd entry\<bar>) (filter (\<lambda>entry. fst entry = k) obj))"

text \<open>
  \<open>run procs st st'\<close>: the loop over \<open>procs\<close>, started in state \<open>st\<close>, is in state \<open>st'\<close>
  at the start of one of its rounds. Every round between the two has admitted a process.
\<close>

inductive run :: "Process list \<Rightarrow> state \<Rightarrow> state \<Rightarrow> bool" for procs where
  run_start: "run procs st st"
| run_round: "run procs st st1 \<Longrightarrow> scan (map pid procs) st1 procs = (st2, True)
                \<Longrightarrow> run procs st st2"

text \<open>
  The available amounts \<open>detectDeadlock\<close> starts its loop with, and the states its loop
  is in at the start of a round.
\<close>

definition initial_available :: "heap \<Rightarrow> AllocationMatrix \<Rightarrow> plain_object" where
  "initial_available h matrix =
     (case deep_copy h matrix of
        (h1, copied) \<Rightarrow>
          (case calculateAvailableResources h1 copied of
             (h2, rs) \<Rightarrow> collect_available h2 rs))"

definition at_round :: "heap \<Rightarrow> AllocationMatrix \<Rightarrow> state \<Rightarrow> bool" where
  "at_round h matrix st =
     run (processes matrix)
         (initial_state (processes matrix) (initial_available h matrix)) st"

definition unfinished_ids :: "Process list \<Rightarrow> state \<Rightarrow> string list" where
  "unfinished_ids procs st = map pid (filter (\<lambda>p. pid p \<notin> set (st_finished st)) procs)"

definition loop_inv :: "Process list \<Rightarrow> state \<Rightarrow> bool" where
  "loop_inv procs st \<longleftrightarrow>
     distinct (st_finished st) \<and> set (st_finished st) \<subseteq> pid ` set procs
     \<and> st_safeSequence st = st_finished st
     \<and> concat (map processedThisRound (st_steps st)) = st_finished st
     \<and> length (st_steps st) = Suc (length (st_finished st))"

text \<open>The ids the run admitted, read off the recorded steps.\<close>

definition admitted_ids :: "DetectionResult \<Rightarrow> string list" where
  "admitted_ids r = concat (map processedThisRound (steps r))"

text \<open>
  Ids joined by a separator, in the words of the specification: the first id, then every
  further id preceded by the separator.
\<close>

fun separated_by :: "string \<Rightarrow> string list \<Rightarrow> string" where
  "separated_by sep [] = []"
| "separated_by sep (x # xs) = x @ concat (map (\<lambda>y. sep @ y) xs)"

definition deadlock_description :: "string list \<Rightarrow> string" where
  "deadlock_description ids =
     ''No process can be satisfied with the available resources. Deadlock detected involving processes: ''
     @ separated_by '', '' ids"

text \<open>
  Two stores have the same frame when they hold the same objects up to the \<open>available\<close>
  fields; a store is unchanged outside a set of references when every other object is the
  same. A store is valid for an array of references when every reference points into it
  and the referenced objects have pairwise distinct ids.
\<close>

definition same_frame :: "heap \<Rightarrow> heap \<Rightarrow> bool" where
  "same_frame h h' \<longleftrightarrow>
     length h' = length h
     \<and> (\<forall>i. rid (h' ! i) = rid (h ! i) \<and> total (h' ! i) = total (h ! i)
            \<and> isMultiInstance (h' ! i) = isMultiInstance (h ! i))"

definition unchanged_outside :: "ref set \<Rightarrow> heap \<Rightarrow> heap \<Rightarrow> bool" where
  "unchanged_outside S h h' \<longleftrightarrow> (\<forall>i. i \<notin> S \<longrightarrow> h' ! i = h ! i)"

definition valid_heap :: "ref list \<Rightarrow> heap \<Rightarrow> bool" where
  "valid_heap rs h \<longleftrightarrow> list_all (\<lambda>a. a < length h) rs \<and> distinct (map (\<lambda>a. rid (h ! a)) rs)"

definition subtract_all :: "ref list \<Rightarrow> Process list \<Rightarrow> heap \<Rightarrow> heap" where
  "subtract_all rs ps h = fold (\<lambda>process. fold (subtract_allocated rs) (allocation process)) ps h"






section \<open>The scenarios of the specification\<close>

definition P1 :: Process where
  "P1 = \<lparr>pid = ''P1'', allocation = [(''R1'', 1), (''R2'', 0)],
          request = [(''R1'', 0), (''R2'', 1)]\<rparr>"

definition P2 :: Process where
  "P2 = \<lparr>pid = ''P2'', allocation = [(''R1'', 0), (''R2'', 1)],
          request = [(''R1'', 1), (''R2'', 0)]\<rparr>"

definition P3 :: Process where
  "P3 = \<lparr>pid = ''P3'', allocation = [(''R1'', 0), (''R2'', 1)],
          request = [(''R1'', 0), (''R2'', 0)]\<rparr>"

definition P0 :: Process where
  "P0 = \<lparr>pid = ''P0'', allocation = [(''R1'', 0), (''R2'', 0)],
          request = [(''R1'', 0), (''R2'', 0)]\<rparr>"

definition R1 :: Resource where
  "R1 = \<lparr>rid = ''R1'', total = 1, available = Num (Finite 0), isMultiInstance = False\<rparr>"

definition R2 :: Resource where
  "R2 = \<lparr>rid = ''R2'', total = 1, available = Num (Finite 0), isMultiInstance = False\<rparr>"

definition R2_two :: Resource where
  "R2_two = \<lparr>rid = ''R2'', total = 2, available = Num (Finite 0), isMultiInstance = True\<rparr>"

definition scenario_A :: AllocationMatrix where
  "scenario_A = \<lparr>processes = [P1, P2], resources = [0, 1]\<rparr>"

definition scenario_B :: AllocationMatrix where
  "scenario_B = \<lparr>processes = [P1, P2, P3], resources = [0, 1]\<rparr>"

text \<open>Scenario A with a third process that holds and requests nothing.\<close>

definition scenario_C :: AllocationMatrix where
  "scenario_C = \<lparr>processes = [P1, P2, P0], resources = [0, 1]\<rparr>"

definition heap_A :: heap where
  "heap_A = [R1, R2]"

definition heap_B :: heap where
  "heap_B = [R1, R2_two]"

definition zero_available :: plain_object where
  "zero_available = [''R1'' \<mapsto> Num (Finite 0), ''R2'' \<mapsto> Num (Finite 0)]"

text \<open>Two resources with the same id, and a process holding one unit of that id.\<close>

definition R1_dup :: Resource where
  "R1_dup = \<lparr>rid = ''R1'', total = 3, available = Num (Finite 0), isMultiInstance = True\<rparr>"

definition P_holds_R1 :: Process where
  "P_holds_R1 = \<lparr>pid = ''P1'', allocation = [(''R1'', 1)], request = []\<rparr>"

definition heap_dup :: heap where
  "heap_dup = [R1_dup, R1_dup]"

definition scenario_dup :: AllocationMatrix where
  "scenario_dup = \<lparr>processes = [P_holds_R1], resources = [0, 1]\<rparr>"

text \<open>
  A process requesting a resource \<open>R9\<close> that exists nowhere else: once with the id of
  \<open>P0\<close>, once with an id of its own.
\<close>

definition P0_twin :: Process where
  "P0_twin = \<lparr>pid = ''P0'', allocation = [(''R1'', 0), (''R2'', 0)],
               request = [(''R9'', 1)]\<rparr>"

definition P4 :: Process where
  "P4 = \<lparr>pid = ''P4'', allocation = [(''R1'', 0), (''R2'', 0)],
          request = [(''R9'', 1)]\<rparr>"

definition scenario_twin :: AllocationMatrix where
  "scenario_twin = \<lparr>processes = [P0, P0_twin], resources = [0, 1]\<rparr>"

definition scenario_unknown :: AllocationMatrix where
  "scenario_unknown = \<lparr>processes = [P0, P4], resources = [0, 1]\<rparr>"

text \<open>
  The same process requesting a resource named \<open>constructor\<close>, a name every object
  inherits.
\<close>

definition P4_constructor :: Process where
  "P4_constructor = \<lparr>pid = ''P4'', allocation = [(''R1'', 0), (''R2'', 0)],
                      request = [(''constructor'', 1)]\<rparr>"

definition scenario_inherited :: AllocationMatrix where
  "scenario_inherited = \<lparr>processes = [P0, P4_constructor], resources = [0, 1]\<rparr>"

text \<open>
  Amounts at the edge of the integers a double holds exactly: \<open>2^53\<close> available units of
  \<open>R1\<close>, and a resource with \<open>2^53 + 2\<close> instances.
\<close>

definition big_available :: plain_object where
  "big_available = [''R1'' \<mapsto> Num (Finite 9007199254740992)]"

definition R1_big :: Resource where
  "R1_big = \<lparr>rid = ''R1'', total = 9007199254740994, available = Num (Finite 0),
              isMultiInstance = True\<rparr>"

definition heap_big :: heap where
  "heap_big = [R1_big]"

definition scenario_big :: AllocationMatrix where
  "scenario_big = \<lparr>processes = [P_holds_R1], resources = [0]\<rparr>"

lemmas scenario_defs = P0_def P1_def P2_def P3_def R1_def R2_def R2_two_def
  scenario_A_def scenario_B_def scenario_C_def heap_A_def heap_B_def zero_available_def
  R1_dup_def P_holds_R1_def heap_dup_def scenario_dup_def
  P0_twin_def P4_def scenario_twin_def scenario_unknown_def
  P4_constructor_def scenario_inherited_def big_available_def R1_big_def heap_big_def
  scenario_big_def

lemmas eval_defs = initial_available_def deep_copy_def calculateAvailableResources_def
  collect_available_def reset_available_def subtract_allocated_def set_property_def
  js_sub_def round_to_double_def Let_def upt_rec nth_append

lemma initial_available_A: "initial_available heap_A scenario_A = zero_available"
  by (rule ext) (simp add: eval_defs scenario_defs)

section \<open>Properties of one round\<close>

lemma initial_state_simps:
  "st_available (initial_state procs av) = av"
  "st_finished (initial_state procs av) = []"
  "st_safeSequence (initial_state procs av) = []"
  by (simp_all add: initial_state_def)

lemma amount_of_distinct:
  "distinct (map fst obj) \<Longrightarrow>
     amount_of obj k = (case map_of obj k of None \<Rightarrow> 0 | Some v \<Rightarrow> v)"
proof (induction obj)
  case Nil
  then show ?case by (simp add: amount_of_def)
next
  case (Cons e obj)
  obtain k' v where e: "e = (k', v)" by (cases e)
  show ?case
  proof (cases "k' = k")
    case True
    then have "k \<notin> fst ` set obj" using Cons.prems e by auto
    then have "filter (\<lambda>entry. fst entry = k) obj = []"
      by (auto simp: filter_empty_conv)
    then show ?thesis using True e by (simp add: amount_of_def)
  next
    case False
    then show ?thesis using Cons e by (simp add: amount_of_def)
  qed
qed

lemma round_to_double_exact: "\<bar>x\<bar> < 2 ^ 53 \<Longrightarrow> round_to_double x = Finite x"
  by (simp add: round_to_double_def)


lemma canFinish_fold:
  "fold (\<lambda>entry flag. case entry of (resourceId, requested) \<Rightarrow>
             if requested \<le> 0 then flag
             else if greater_than requested (or_zero (get_property av resourceId)) then False
             else flag) es b
   = (b \<and> (\<forall>(resourceId, requested) \<in> set es.
              0 < requested \<longrightarrow> \<not> greater_than requested (or_zero (get_property av resourceId))))"
  by (induction es arbitrary: b) (auto split: prod.splits)

lemma canFinish_char:
  "canFinish av P
     = (\<forall>(resourceId, requested) \<in> set (request P).
          0 < requested \<longrightarrow> \<not> greater_than requested (or_zero (get_property av resourceId)))"
  by (simp add: canFinish_def canFinish_fold)


lemma canFinish_blocked:
  assumes "(k, q) \<in> set (request P)" "0 < q" "av k = None" "k \<notin> set inherited_names"
  shows "\<not> canFinish av P"
proof -
  have "or_zero (get_property av k) = Num (Finite 0)"
    using assms(3,4) by (simp add: get_property_def)
  then have "greater_than q (or_zero (get_property av k))" using assms(2) by simp
  then show ?thesis unfolding canFinish_char using assms(1,2) by blast
qed

lemma release_Cons:
  "release ((k, a) # alloc) av
     = release alloc (set_property av k (js_plus (or_zero (get_property av k)) a))"
  by (simp add: release_def)

lemma release_dom_subset: "dom (release alloc av) \<subseteq> dom av \<union> fst ` set alloc"
proof (induction alloc arbitrary: av)
  case Nil
  then show ?case by (simp add: release_def)
next
  case (Cons e alloc)
  obtain k a where e: "e = (k, a)" by (cases e)
  let ?av1 = "set_property av k (js_plus (or_zero (get_property av k)) a)"
  have "dom (release (e # alloc) av) \<subseteq> dom ?av1 \<union> fst ` set alloc"
    unfolding e release_Cons by (rule Cons.IH)
  also have "\<dots> \<subseteq> insert k (dom av) \<union> fst ` set alloc"
    by (auto simp: set_property_def split: if_splits)
  also have "\<dots> = dom av \<union> fst ` set (e # alloc)"
    by (auto simp: e)
  finally show ?case .
qed








section \<open>Properties of calculateAvailableResources\<close>

lemma set_available_nth:
  "(h[a := (h ! a)\<lparr>available := v\<rparr>]) ! i
     = (if i = a \<and> a < length h then (h ! a)\<lparr>available := v\<rparr> else h ! i)"
proof (cases "a < length h")
  case True
  then show ?thesis by (simp add: nth_list_update)
next
  case False
  then show ?thesis by (simp add: list_update_beyond)
qed

lemma same_frame_refl: "same_frame h h"
  by (simp add: same_frame_def)

lemma same_frame_trans: "same_frame h h1 \<Longrightarrow> same_frame h1 h2 \<Longrightarrow> same_frame h h2"
  by (simp add: same_frame_def)

lemma unchanged_refl: "unchanged_outside S h h"
  by (simp add: unchanged_outside_def)

lemma unchanged_trans:
  "unchanged_outside S h h1 \<Longrightarrow> unchanged_outside S h1 h2 \<Longrightarrow> unchanged_outside S h h2"
  by (simp add: unchanged_outside_def)

lemma same_frame_set_available: "same_frame h (h[a := (h ! a)\<lparr>available := v\<rparr>])"
  by (simp add: same_frame_def set_available_nth)

lemma unchanged_set_available:
  "a \<in> S \<Longrightarrow> unchanged_outside S h (h[a := (h ! a)\<lparr>available := v\<rparr>])"
  by (auto simp: unchanged_outside_def set_available_nth)

lemma same_frame_reset: "same_frame h (reset_available a h)"
  unfolding reset_available_def by (rule same_frame_set_available)

lemma unchanged_reset: "a \<in> S \<Longrightarrow> unchanged_outside S h (reset_available a h)"
  unfolding reset_available_def by (rule unchanged_set_available)

lemma fold_reset_frame:
  "set rs \<subseteq> S \<Longrightarrow> same_frame h (fold reset_available rs h)
     \<and> unchanged_outside S h (fold reset_available rs h)"
proof (induction rs arbitrary: h)
  case Nil
  then show ?case by (simp add: same_frame_refl unchanged_refl)
next
  case (Cons a rs)
  then have "same_frame (reset_available a h) (fold reset_available rs (reset_available a h))"
      "unchanged_outside S (reset_available a h) (fold reset_available rs (reset_available a h))"
    by simp_all
  moreover have "same_frame h (reset_available a h)" by (rule same_frame_reset)
  moreover have "unchanged_outside S h (reset_available a h)"
    using Cons.prems by (intro unchanged_reset) simp
  ultimately show ?case
    using same_frame_trans unchanged_trans by fastforce
qed

lemma fold_reset_available:
  "a \<in> set rs \<Longrightarrow> a < length h \<Longrightarrow>
     available (fold reset_available rs h ! a) = Num (Finite (total (h ! a)))"
proof (induction rs arbitrary: h)
  case Nil
  then show ?case by simp
next
  case (Cons b rs)
  let ?h1 = "reset_available b h"
  have f1: "same_frame h ?h1" by (rule same_frame_reset)
  show ?case
  proof (cases "a \<in> set rs")
    case True
    have "a < length ?h1" using Cons.prems f1 by (simp add: same_frame_def)
    then have "available (fold reset_available rs ?h1 ! a) = Num (Finite (total (?h1 ! a)))"
      using Cons.IH True by blast
    then show ?thesis using f1 by (simp add: same_frame_def)
  next
    case False
    then have ab: "a = b" using Cons.prems by simp
    have "unchanged_outside (set rs) ?h1 (fold reset_available rs ?h1)"
      using fold_reset_frame[of rs "set rs" ?h1] by simp
    then have "fold reset_available rs ?h1 ! a = ?h1 ! a"
      using False by (simp add: unchanged_outside_def)
    moreover have "available (?h1 ! a) = Num (Finite (total (h ! a)))"
      using ab Cons.prems by (simp add: reset_available_def)
    ultimately show ?thesis by simp
  qed
qed

lemma find_Some_props: "find Q xs = Some a \<Longrightarrow> a \<in> set xs \<and> Q a"
  by (induction xs) (auto split: if_splits)

lemma find_distinct_key:
  "distinct (map f xs) \<Longrightarrow> a \<in> set xs \<Longrightarrow> find (\<lambda>b. f b = f a) xs = Some a"
  by (induction xs) auto

lemma find_None_key: "k \<notin> f ` set xs \<Longrightarrow> find (\<lambda>b. f b = k) xs = None"
  by (induction xs) auto

lemma subtract_frame:
  "same_frame h (subtract_allocated rs e h) \<and> unchanged_outside (set rs) h (subtract_allocated rs e h)"
proof (cases e)
  case (Pair k v)
  show ?thesis
  proof (cases "find (\<lambda>a. rid (h ! a) = k) rs")
    case None
    then show ?thesis
      by (simp add: subtract_allocated_def Pair same_frame_refl unchanged_refl)
  next
    case (Some a)
    then have "a \<in> set rs" using find_Some_props by fastforce
    then show ?thesis
      using Some same_frame_set_available unchanged_set_available
      by (simp add: subtract_allocated_def Pair)
  qed
qed

lemma subtract_unknown:
  "k \<notin> (\<lambda>a. rid (h ! a)) ` set rs \<Longrightarrow> subtract_allocated rs (k, v) h = h"
  by (simp add: subtract_allocated_def find_None_key)

lemma valid_heap_frame: "same_frame h h' \<Longrightarrow> valid_heap rs h \<Longrightarrow> valid_heap rs h'"
  by (simp add: valid_heap_def same_frame_def)

lemma subtract_available:
  assumes "valid_heap rs h" "a \<in> set rs"
  shows "available (subtract_allocated rs (k, v) h ! a)
           = (if rid (h ! a) = k
              then Num (js_sub (to_number (available (h ! a))) (Finite v))
              else available (h ! a))"
proof (cases "rid (h ! a) = k")
  case True
  have "find (\<lambda>b. rid (h ! b) = rid (h ! a)) rs = Some a"
    using assms by (intro find_distinct_key) (simp_all add: valid_heap_def)
  moreover have "a < length h" using assms by (simp add: valid_heap_def list_all_iff)
  ultimately show ?thesis
    using True by (auto simp: subtract_allocated_def)
next
  case False
  show ?thesis
  proof (cases "find (\<lambda>b. rid (h ! b) = k) rs")
    case None
    then show ?thesis using False by (simp add: subtract_allocated_def)
  next
    case (Some b)
    then have "rid (h ! b) = k" using find_Some_props by fastforce
    then have "b \<noteq> a" using False by auto
    then show ?thesis using Some False by (simp add: subtract_allocated_def)
  qed
qed

lemma abs_amount_of_nonneg: "0 \<le> abs_amount_of es k"
  unfolding abs_amount_of_def by (rule sum_list_nonneg) auto

lemma amount_of_abs_le: "\<bar>amount_of es k\<bar> \<le> abs_amount_of es k"
  unfolding amount_of_def abs_amount_of_def by (induction es) auto

lemma fold_subtract_frame:
  "same_frame h (fold (subtract_allocated rs) es h)
     \<and> unchanged_outside (set rs) h (fold (subtract_allocated rs) es h)"
proof (induction es arbitrary: h)
  case Nil
  then show ?case by (simp add: same_frame_refl unchanged_refl)
next
  case (Cons e es)
  show ?case
    using Cons.IH[of "subtract_allocated rs e h"] subtract_frame[of h rs e]
      same_frame_trans unchanged_trans by fastforce
qed

lemma fold_subtract_available:
  assumes "valid_heap rs h" "a \<in> set rs"
    and "available (h ! a) = Num (Finite x)"
    and "\<bar>x\<bar> + abs_amount_of es (rid (h ! a)) < 2 ^ 53"
  shows "available (fold (subtract_allocated rs) es h ! a)
           = Num (Finite (x - amount_of es (rid (h ! a))))"
  using assms
proof (induction es arbitrary: h x)
  case Nil
  then show ?case by (simp add: amount_of_def)
next
  case (Cons e es)
  obtain k v where e: "e = (k, v)" by (cases e)
  let ?h1 = "subtract_allocated rs e h"
  let ?x1 = "x - (if rid (h ! a) = k then v else 0)"
  have fr: "same_frame h ?h1" using subtract_frame by blast
  then have v1: "valid_heap rs ?h1" using Cons.prems(1) valid_heap_frame by blast
  have rid1: "rid (?h1 ! a) = rid (h ! a)" using fr by (simp add: same_frame_def)
  have bound: "\<bar>x\<bar> + (if rid (h ! a) = k then \<bar>v\<bar> else 0) + abs_amount_of es (rid (h ! a))
                 < 2 ^ 53"
    using Cons.prems(4) by (auto simp: abs_amount_of_def e)
  have small: "\<bar>?x1\<bar> < 2 ^ 53"
    using bound abs_amount_of_nonneg[of es "rid (h ! a)"] by (auto split: if_splits)
  have "available (?h1 ! a)
          = (if rid (h ! a) = k
             then Num (js_sub (to_number (available (h ! a))) (Finite v))
             else available (h ! a))"
    unfolding e using Cons.prems(1,2) by (rule subtract_available)
  then have a1: "available (?h1 ! a) = Num (Finite ?x1)"
    using Cons.prems(3) small by (auto simp: js_sub_def round_to_double_exact)
  have b1: "\<bar>?x1\<bar> + abs_amount_of es (rid (?h1 ! a)) < 2 ^ 53"
    unfolding rid1 using bound by (auto split: if_splits)
  have "available (fold (subtract_allocated rs) es ?h1 ! a)
          = Num (Finite (?x1 - amount_of es (rid (?h1 ! a))))"
    using Cons.IH[OF v1 Cons.prems(2) a1 b1] .
  then show ?case unfolding rid1 by (simp add: amount_of_def e)
qed

lemma subtract_all_frame:
  "same_frame h (subtract_all rs ps h) \<and> unchanged_outside (set rs) h (subtract_all rs ps h)"
proof (induction ps arbitrary: h)
  case Nil
  then show ?case by (simp add: subtract_all_def same_frame_refl unchanged_refl)
next
  case (Cons p ps)
  let ?h1 = "fold (subtract_allocated rs) (allocation p) h"
  have "subtract_all rs (p # ps) h = subtract_all rs ps ?h1" by (simp add: subtract_all_def)
  then show ?case
    using Cons.IH[of ?h1] fold_subtract_frame[of h rs "allocation p"]
      same_frame_trans unchanged_trans by fastforce
qed

lemma subtract_all_available:
  assumes "valid_heap rs h" "a \<in> set rs"
    and "available (h ! a) = Num (Finite x)"
    and "\<bar>x\<bar> + (\<Sum>p\<leftarrow>ps. abs_amount_of (allocation p) (rid (h ! a))) < 2 ^ 53"
  shows "available (subtract_all rs ps h ! a)
           = Num (Finite (x - (\<Sum>p\<leftarrow>ps. amount_of (allocation p) (rid (h ! a)))))"
  using assms
proof (induction ps arbitrary: h x)
  case Nil
  then show ?case by (simp add: subtract_all_def)
next
  case (Cons p ps)
  let ?h1 = "fold (subtract_allocated rs) (allocation p) h"
  let ?k = "rid (h ! a)"
  let ?x1 = "x - amount_of (allocation p) ?k"
  let ?rest = "\<Sum>p\<leftarrow>ps. abs_amount_of (allocation p) ?k"
  have st: "subtract_all rs (p # ps) h = subtract_all rs ps ?h1" by (simp add: subtract_all_def)
  have fr: "same_frame h ?h1" using fold_subtract_frame by blast
  then have v1: "valid_heap rs ?h1" using Cons.prems(1) valid_heap_frame by blast
  have rid1: "rid (?h1 ! a) = ?k" using fr by (simp add: same_frame_def)
  have rest: "0 \<le> ?rest"
    by (rule sum_list_nonneg) (auto simp: abs_amount_of_nonneg)
  have bound: "\<bar>x\<bar> + abs_amount_of (allocation p) ?k + ?rest < 2 ^ 53"
    using Cons.prems(4) by simp
  have le: "\<bar>amount_of (allocation p) ?k\<bar> \<le> abs_amount_of (allocation p) ?k"
    by (rule amount_of_abs_le)
  have a1: "available (?h1 ! a) = Num (Finite ?x1)"
    using Cons.prems(1,2,3) bound rest by (intro fold_subtract_available) auto
  have b1: "\<bar>?x1\<bar> + (\<Sum>p\<leftarrow>ps. abs_amount_of (allocation p) (rid (?h1 ! a))) < 2 ^ 53"
    unfolding rid1 using bound le by linarith
  have "available (subtract_all rs ps ?h1 ! a)
          = Num (Finite (?x1 - (\<Sum>p\<leftarrow>ps. amount_of (allocation p) (rid (?h1 ! a)))))"
    using Cons.IH[OF v1 Cons.prems(2) a1 b1] .
  then show ?case unfolding st rid1 by simp
qed

lemma calculate_unfold:
  "calculateAvailableResources h matrix
     = (subtract_all (resources matrix) (processes matrix)
          (fold reset_available (resources matrix) h), resources matrix)"
  by (simp add: calculateAvailableResources_def subtract_all_def Let_def)

lemma calculate_frame:
  "same_frame h (fst (calculateAvailableResources h matrix))
     \<and> unchanged_outside (set (resources matrix)) h (fst (calculateAvailableResources h matrix))"
  using fold_reset_frame[of "resources matrix" "set (resources matrix)" h]
    subtract_all_frame[of "fold reset_available (resources matrix) h" "resources matrix" "processes matrix"]
    same_frame_trans unchanged_trans
  by (fastforce simp: calculate_unfold)

text \<open>
  C5, amended. When the resource ids of the matrix are unique and, for a resource, the
  absolute values of its total and of all allocation entries for its id add up to less
  than \<open>2^53\<close>, the resource keeps its id and total in the returned list and has
  \<open>available\<close> = \<open>total\<close> minus the sum, over all processes, of the process's allocation entry
  for the resource's id (a missing entry counting as 0). An allocation entry whose
  resource id is not the id of a resource of the list changes nothing.
\<close>

theorem available_is_total_minus_allocated:
  assumes "list_all (\<lambda>a. a < length h) (resources matrix)"
    and "distinct (map (\<lambda>a. rid (h ! a)) (resources matrix))"
    and "a \<in> set (resources matrix)"
    and "\<bar>total (h ! a)\<bar>
           + (\<Sum>p\<leftarrow>processes matrix. abs_amount_of (allocation p) (rid (h ! a))) < 2 ^ 53"
  shows "snd (calculateAvailableResources h matrix) = resources matrix
       \<and> rid (fst (calculateAvailableResources h matrix) ! a) = rid (h ! a)
       \<and> total (fst (calculateAvailableResources h matrix) ! a) = total (h ! a)
       \<and> available (fst (calculateAvailableResources h matrix) ! a)
           = Num (Finite (total (h ! a)
                  - (\<Sum>p\<leftarrow>processes matrix. amount_of (allocation p) (rid (h ! a)))))
       \<and> (\<forall>k v h'. k \<notin> (\<lambda>b. rid (h' ! b)) ` set (resources matrix)
             \<longrightarrow> subtract_allocated (resources matrix) (k, v) h' = h')"
proof -
  let ?rs = "resources matrix"
  let ?h1 = "fold reset_available ?rs h"
  have v: "valid_heap ?rs h" using assms(1,2) by (simp add: valid_heap_def)
  have fr1: "same_frame h ?h1" using fold_reset_frame[of ?rs "set ?rs" h] by simp
  then have v1: "valid_heap ?rs ?h1" using v valid_heap_frame by blast
  have a_len: "a < length h" using assms(1,3) by (simp add: list_all_iff)
  have rid1: "rid (?h1 ! a) = rid (h ! a)" using fr1 by (simp add: same_frame_def)
  have a1: "available (?h1 ! a) = Num (Finite (total (h ! a)))"
    using assms(3) a_len by (rule fold_reset_available)
  have b1: "\<bar>total (h ! a)\<bar>
              + (\<Sum>p\<leftarrow>processes matrix. abs_amount_of (allocation p) (rid (?h1 ! a))) < 2 ^ 53"
    unfolding rid1 using assms(4) .
  have "available (subtract_all ?rs (processes matrix) ?h1 ! a)
          = Num (Finite (total (h ! a)
                 - (\<Sum>p\<leftarrow>processes matrix. amount_of (allocation p) (rid (?h1 ! a)))))"
    using v1 assms(3) a1 b1 by (rule subtract_all_available)
  then have av: "available (fst (calculateAvailableResources h matrix) ! a)
           = Num (Finite (total (h ! a)
                  - (\<Sum>p\<leftarrow>processes matrix. amount_of (allocation p) (rid (h ! a)))))"
    unfolding rid1 by (simp add: calculate_unfold)
  have "same_frame h (fst (calculateAvailableResources h matrix))"
    using calculate_frame by blast
  then have "rid (fst (calculateAvailableResources h matrix) ! a) = rid (h ! a)"
      "total (fst (calculateAvailableResources h matrix) ! a) = total (h ! a)"
    by (simp_all add: same_frame_def)
  moreover have "snd (calculateAvailableResources h matrix) = ?rs"
    by (simp add: calculate_unfold)
  ultimately show ?thesis using av subtract_unknown by blast
qed

text \<open>
  C5, as stated for every matrix, fails in two ways. When two resources share an id,
  \<open>find\<close> yields the first of them, so the second keeps \<open>available\<close> = \<open>total\<close>: with total 3
  and one unit allocated, the second resource ends with 3 available, not 2. And the
  subtraction is one of doubles: with \<open>2^53 + 2\<close> instances and one unit allocated the
  resource ends with \<open>2^53\<close> available, not \<open>2^53 + 1\<close>.
\<close>

theorem available_counterexample:
  "available (fst (calculateAvailableResources heap_dup scenario_dup) ! 1) = Num (Finite 3)
   \<and> total (fst (calculateAvailableResources heap_dup scenario_dup) ! 1)
       - (\<Sum>p\<leftarrow>processes scenario_dup.
            amount_of (allocation p) (rid (fst (calculateAvailableResources heap_dup scenario_dup) ! 1)))
       = 2
   \<and> distinct (map (\<lambda>a. rid (heap_big ! a)) (resources scenario_big))
   \<and> available (fst (calculateAvailableResources heap_big scenario_big) ! 0)
       = Num (Finite 9007199254740992)
   \<and> total (heap_big ! 0)
       - (\<Sum>p\<leftarrow>processes scenario_big. amount_of (allocation p) (rid (heap_big ! 0)))
       = 9007199254740993"
  by code_simp

text \<open>
  Resource \<open>R2\<close> with two instances, one of them held by \<open>P2\<close>.
\<close>

theorem available_is_total_minus_allocated_witness:
  "list_all (\<lambda>a. a < length heap_B) (resources scenario_A)
   \<and> distinct (map (\<lambda>a. rid (heap_B ! a)) (resources scenario_A))
   \<and> 1 \<in> set (resources scenario_A)
   \<and> available (fst (calculateAvailableResources heap_B scenario_A) ! 1) = Num (Finite 1)"
proof -
  have h1: "list_all (\<lambda>a. a < length heap_B) (resources scenario_A)"
    and h2: "distinct (map (\<lambda>a. rid (heap_B ! a)) (resources scenario_A))"
    and h3: "1 \<in> set (resources scenario_A)"
    by (simp_all add: scenario_defs)
  have h4: "\<bar>total (heap_B ! 1)\<bar>
           + (\<Sum>p\<leftarrow>processes scenario_A. abs_amount_of (allocation p) (rid (heap_B ! 1)))
           < 2 ^ 53"
    by (simp add: scenario_defs abs_amount_of_def)
  have "total (heap_B ! 1)
          - (\<Sum>p\<leftarrow>processes scenario_A. amount_of (allocation p) (rid (heap_B ! 1))) = 1"
    by (simp add: scenario_defs amount_of_def)
  then show ?thesis
    using h1 h2 h3 available_is_total_minus_allocated[OF h1 h2 h3 h4] by simp
qed

text \<open>
  C4. The function writes to the resource objects it was given: the array is copied, its
  elements are not. With \<open>R2\<close> of two instances, one of them held by \<open>P2\<close>, and a stale
  \<open>available\<close> of 0, the caller's object has \<open>available\<close> = 1 after the call, and the
  returned array holds the caller's own references.
\<close>

theorem calculateAvailableResources_mutates_input:
  "calculateAvailableResources heap_B scenario_A
     = ([R1, R2_two\<lparr>available := Num (Finite 1)\<rparr>], resources scenario_A)
   \<and> heap_B ! 1 = R2_two \<and> available R2_two = Num (Finite 0)"
  by (simp add: eval_defs scenario_defs)

section \<open>Properties of the loop\<close>

lemma scan_unchanged:
  "scan ids st ps = (st', False) \<Longrightarrow>
     st' = st \<and> (\<forall>p\<in>set ps. pid p \<in> set (st_finished st) \<or> \<not> canFinish (st_available st) p)"
  by (induction ps) (auto split: if_splits)

lemma scan_none_qualifies:
  "\<forall>p\<in>set ps. pid p \<in> set (st_finished st) \<or> \<not> canFinish (st_available st) p \<Longrightarrow>
     scan ids st ps = (st, False)"
  by (induction ps) auto

lemma rounds_changed:
  "scan (map pid procs) st procs = (st', True) \<Longrightarrow> rounds procs st = rounds procs st'"
  by (subst rounds.simps) simp

lemma rounds_stuck:
  "scan (map pid procs) st procs = (st', False) \<Longrightarrow>
     rounds procs st = (if length (st_finished st) < length procs
                        then deadlock_result procs st else safe_result st)"
  using scan_unchanged[of "map pid procs" st procs st']
  by (subst rounds.simps) simp

lemma run_prepend:
  "run procs st1 st' \<Longrightarrow> scan (map pid procs) st procs = (st1, True) \<Longrightarrow> run procs st st'"
proof (induction rule: run.induct)
  case run_start
  then show ?case using run.run_start run.run_round by blast
next
  case (run_round st1 st2 st3)
  then show ?case using run.run_round by blast
qed

lemma rounds_run: "run procs st st' \<Longrightarrow> rounds procs st = rounds procs st'"
  by (induction rule: run.induct) (simp_all add: rounds_changed)

lemma rounds_final:
  "\<exists>st'. run procs st st' \<and> scan (map pid procs) st' procs = (st', False)
       \<and> rounds procs st = (if length (st_finished st') < length procs
                             then deadlock_result procs st' else safe_result st')"
proof (induction procs st rule: rounds.induct)
  case (1 procs st)
  obtain st1 c where sc: "scan (map pid procs) st procs = (st1, c)"
    by (cases "scan (map pid procs) st procs")
  show ?case
  proof (cases c)
    case True
    have "\<exists>st'. run procs st1 st' \<and> scan (map pid procs) st' procs = (st', False)
       \<and> rounds procs st1 = (if length (st_finished st') < length procs
                             then deadlock_result procs st' else safe_result st')"
      using "1.IH"[of st1 c] sc True by simp
    then obtain st' where st': "run procs st1 st'" "scan (map pid procs) st' procs = (st', False)"
      "rounds procs st1 = (if length (st_finished st') < length procs
                             then deadlock_result procs st' else safe_result st')"
      by blast
    have "run procs st st'" using run_prepend[OF st'(1)] sc True by simp
    moreover have "rounds procs st = rounds procs st1"
      using rounds_changed sc True by simp
    ultimately show ?thesis using st' by auto
  next
    case False
    then have "scan (map pid procs) st procs = (st1, False)" using sc by simp
    then have "st1 = st" using scan_unchanged by blast
    then show ?thesis
      using rounds_stuck[of procs st st1] sc False run_start[of procs st] by auto
  qed
qed

lemma loop_inv_initial: "loop_inv procs (initial_state procs av)"
  by (simp add: loop_inv_def initial_state_def)

lemma loop_inv_admit:
  assumes "loop_inv procs st" "p \<in> set procs" "pid p \<notin> set (st_finished st)"
  shows "loop_inv procs (admit ids st p)"
  using assms by (auto simp: loop_inv_def admit_def Let_def set_add_def)

lemma loop_inv_run: "run procs st st' \<Longrightarrow> loop_inv procs st \<Longrightarrow> loop_inv procs st'"
proof (induction rule: run.induct)
  case run_start
  then show ?case .
next
  case (run_round st0 st1 st2)
  then obtain p where "p \<in> set procs" "pid p \<notin> set (st_finished st1)"
      "st2 = admit (map pid procs) st1 p"
    using scan_changed by blast
  then show ?case using run_round loop_inv_admit by blast
qed

lemma finished_length_le:
  assumes "loop_inv procs st"
  shows "length (st_finished st) \<le> length procs"
proof -
  have "length (st_finished st) = card (set (st_finished st))"
    using assms by (simp add: loop_inv_def distinct_card)
  also have "\<dots> \<le> card (pid ` set procs)"
    using assms by (intro card_mono) (auto simp: loop_inv_def)
  also have "\<dots> \<le> card (set procs)" by (rule card_image_le) simp
  also have "\<dots> \<le> length procs" by (rule card_length)
  finally show ?thesis .
qed

lemma finished_length_less:
  assumes "loop_inv procs st" "p \<in> set procs" "pid p \<notin> set (st_finished st)"
  shows "length (st_finished st) < length procs"
proof -
  have "length (st_finished st) = card (set (st_finished st))"
    using assms by (simp add: loop_inv_def distinct_card)
  also have "\<dots> < card (pid ` set procs)"
    using assms by (intro psubset_card_mono) (auto simp: loop_inv_def)
  also have "\<dots> \<le> card (set procs)" by (rule card_image_le) simp
  also have "\<dots> \<le> length procs" by (rule card_length)
  finally show ?thesis .
qed

lemma detectDeadlock_rounds:
  "snd (detectDeadlock h matrix)
     = rounds (processes matrix) (initial_state (processes matrix) (initial_available h matrix))"
  by (simp add: detectDeadlock_def initial_available_def deep_copy_def
        calculateAvailableResources_def Let_def)

lemma join_separated_by: "join sep ids = separated_by sep ids"
proof (induction sep ids rule: join.induct)
  case (1 sep)
  then show ?case by simp
next
  case (2 sep x)
  then show ?case by simp
next
  case (3 sep x y zs)
  then show ?case by simp
qed

text \<open>
  C3. When a round admits no process although some process is not finished (the id of
  some process is not in the finished set; the code tests that the set is smaller than
  the process list, which follows from it), the function returns at once: \<open>deadlocked\<close>
  is the list of unfinished ids in list order, \<open>safeSequence\<close> is null, and the steps
  recorded so far are followed by exactly one deadlock step whose remaining-process list
  is that same list. The round is the scan of the code itself: that it admits no process
  is its outcome, whatever the reason.
\<close>

theorem no_admission_returns_deadlock:
  assumes "at_round h matrix st"
    and "\<not> snd (scan (map pid (processes matrix)) st (processes matrix))"
    and "(\<exists>p\<in>set (processes matrix). pid p \<notin> set (st_finished st))
         \<or> length (st_finished st) < length (processes matrix)"
  shows "snd (detectDeadlock h matrix) =
           \<lparr>deadlocked = unfinished_ids (processes matrix) st,
            safeSequence = None,
            steps = st_steps st @
              [\<lparr>description = deadlock_description (unfinished_ids (processes matrix) st),
                remainingProcesses = unfinished_ids (processes matrix) st,
                availableResources = st_available st,
                processedThisRound = []\<rparr>]\<rparr>
         \<and> rounds (processes matrix) st = snd (detectDeadlock h matrix)"
proof -
  let ?procs = "processes matrix"
  have r: "run ?procs (initial_state ?procs (initial_available h matrix)) st"
    using assms(1) by (simp add: at_round_def)
  have inv: "loop_inv ?procs st"
    using loop_inv_run[OF r loop_inv_initial] .
  have less: "length (st_finished st) < length ?procs"
    using assms(3) finished_length_less[OF inv] by blast
  obtain st1 where sc: "scan (map pid ?procs) st ?procs = (st1, False)"
    using assms(2) by (cases "scan (map pid ?procs) st ?procs") auto
  then have "rounds ?procs st = deadlock_result ?procs st"
    using rounds_stuck less by simp
  then show ?thesis
    using rounds_run[OF r]
    by (simp add: detectDeadlock_rounds deadlock_result_def unfinished_ids_def
          deadlock_description_def join_separated_by Let_def)
qed

text \<open>
  Scenario A of the specification: with nothing available neither process is admitted in
  the first round.
\<close>

theorem no_admission_returns_deadlock_witness:
  "at_round heap_A scenario_A (initial_state [P1, P2] zero_available)
   \<and> \<not> snd (scan [''P1'', ''P2''] (initial_state [P1, P2] zero_available) [P1, P2])
   \<and> deadlocked (snd (detectDeadlock heap_A scenario_A)) = [''P1'', ''P2'']
   \<and> safeSequence (snd (detectDeadlock heap_A scenario_A)) = None
   \<and> map remainingProcesses (steps (snd (detectDeadlock heap_A scenario_A)))
        = [[''P1'', ''P2''], [''P1'', ''P2'']]
   \<and> description (last (steps (snd (detectDeadlock heap_A scenario_A))))
        = ''No process can be satisfied with the available resources. Deadlock detected involving processes: P1, P2''"
proof -
  let ?st = "initial_state [P1, P2] zero_available"
  have procs: "processes scenario_A = [P1, P2]" by (simp add: scenario_A_def)
  have ids: "map pid [P1, P2] = [''P1'', ''P2'']" by (simp add: P1_def P2_def)
  have h1: "at_round heap_A scenario_A ?st"
    by (simp add: at_round_def procs initial_available_A run_start)
  have n: "\<not> snd (scan [''P1'', ''P2''] ?st [P1, P2])"
    by code_simp
  have h2: "\<not> snd (scan (map pid (processes scenario_A)) ?st (processes scenario_A))"
    unfolding procs ids by (rule n)
  have h3: "(\<exists>p\<in>set (processes scenario_A). pid p \<notin> set (st_finished ?st))
         \<or> length (st_finished ?st) < length (processes scenario_A)"
    by (simp add: procs initial_state_simps)
  have u: "unfinished_ids (processes scenario_A) ?st = [''P1'', ''P2'']"
    by (simp add: unfinished_ids_def procs initial_state_simps P1_def P2_def)
  have s: "map remainingProcesses (st_steps ?st) = [[''P1'', ''P2'']]"
    by (simp add: initial_state_def P1_def P2_def)
  have d: "deadlock_description [''P1'', ''P2'']
             = ''No process can be satisfied with the available resources. Deadlock detected involving processes: P1, P2''"
    by (simp add: deadlock_description_def)
  from no_admission_returns_deadlock[OF h1 h2 h3]
  have "snd (detectDeadlock heap_A scenario_A) =
           \<lparr>deadlocked = unfinished_ids (processes scenario_A) ?st,
            safeSequence = None,
            steps = st_steps ?st @
              [\<lparr>description = deadlock_description (unfinished_ids (processes scenario_A) ?st),
                remainingProcesses = unfinished_ids (processes scenario_A) ?st,
                availableResources = st_available ?st,
                processedThisRound = []\<rparr>]\<rparr>"
    by blast
  then have "deadlocked (snd (detectDeadlock heap_A scenario_A)) = [''P1'', ''P2'']
   \<and> safeSequence (snd (detectDeadlock heap_A scenario_A)) = None
   \<and> map remainingProcesses (steps (snd (detectDeadlock heap_A scenario_A)))
        = [[''P1'', ''P2''], [''P1'', ''P2'']]
   \<and> description (last (steps (snd (detectDeadlock heap_A scenario_A))))
        = ''No process can be satisfied with the available resources. Deadlock detected involving processes: P1, P2''"
    using u s d by simp
  then show ?thesis using h1 n by simp
qed

lemma detect_final:
  "\<exists>st. at_round h matrix st \<and> loop_inv (processes matrix) st
      \<and> (\<forall>p\<in>set (processes matrix).
            pid p \<in> set (st_finished st) \<or> \<not> canFinish (st_available st) p)
      \<and> snd (detectDeadlock h matrix)
          = (if length (st_finished st) < length (processes matrix)
             then deadlock_result (processes matrix) st else safe_result st)"
proof -
  let ?procs = "processes matrix"
  let ?st0 = "initial_state ?procs (initial_available h matrix)"
  obtain st where st: "run ?procs ?st0 st" "scan (map pid ?procs) st ?procs = (st, False)"
    "rounds ?procs ?st0 = (if length (st_finished st) < length ?procs
                             then deadlock_result ?procs st else safe_result st)"
    using rounds_final[of ?procs ?st0] by blast
  have "loop_inv ?procs st" using loop_inv_run[OF st(1) loop_inv_initial] .
  moreover have "\<forall>p\<in>set ?procs. pid p \<in> set (st_finished st) \<or> \<not> canFinish (st_available st) p"
    using scan_unchanged[OF st(2)] by blast
  ultimately show ?thesis
    using st(1,3) by (auto simp: at_round_def detectDeadlock_rounds)
qed

lemma admitted_deadlock_result:
  "loop_inv procs st \<Longrightarrow> admitted_ids (deadlock_result procs st) = st_finished st"
  by (simp add: admitted_ids_def deadlock_result_def loop_inv_def Let_def)

lemma admitted_safe_result:
  "loop_inv procs st \<Longrightarrow> admitted_ids (safe_result st) = st_finished st"
  by (simp add: admitted_ids_def safe_result_def loop_inv_def)

lemma finished_all:
  assumes "loop_inv procs st" "\<not> length (st_finished st) < length procs"
  shows "set (st_finished st) = pid ` set procs"
proof -
  have "card (pid ` set procs) \<le> card (set procs)" by (rule card_image_le) simp
  also have "\<dots> \<le> length procs" by (rule card_length)
  also have "\<dots> \<le> length (st_finished st)" using assms(2) by simp
  also have "\<dots> = card (set (st_finished st))"
    using assms(1) by (simp add: loop_inv_def distinct_card)
  finally have "card (pid ` set procs) \<le> card (set (st_finished st))" .
  moreover have "set (st_finished st) \<subseteq> pid ` set procs"
    using assms(1) by (simp add: loop_inv_def)
  ultimately show ?thesis by (intro card_seteq) auto
qed

text \<open>
  C2, amended. With unique process ids, every process id is either admitted (it is the
  processed id of exactly one recorded step) or in \<open>deadlocked\<close>, never both and never
  neither. When the run is safe, \<open>safeSequence\<close> is the list of admitted ids and
  \<open>deadlocked\<close> is empty; when it deadlocks, \<open>safeSequence\<close> is null and \<open>deadlocked\<close>
  is not empty.
\<close>

theorem coverage_admitted_or_deadlocked:
  assumes "distinct (map pid (processes matrix))"
  shows "distinct (admitted_ids (snd (detectDeadlock h matrix)))
       \<and> distinct (deadlocked (snd (detectDeadlock h matrix)))
       \<and> set (admitted_ids (snd (detectDeadlock h matrix)))
           \<union> set (deadlocked (snd (detectDeadlock h matrix))) = set (map pid (processes matrix))
       \<and> set (admitted_ids (snd (detectDeadlock h matrix)))
           \<inter> set (deadlocked (snd (detectDeadlock h matrix))) = {}
       \<and> (case safeSequence (snd (detectDeadlock h matrix)) of
             Some ss \<Rightarrow> ss = admitted_ids (snd (detectDeadlock h matrix))
                        \<and> deadlocked (snd (detectDeadlock h matrix)) = []
           | None \<Rightarrow> deadlocked (snd (detectDeadlock h matrix)) \<noteq> [])"
proof -
  let ?procs = "processes matrix"
  let ?r = "snd (detectDeadlock h matrix)"
  obtain st where inv: "loop_inv ?procs st"
    and r: "?r = (if length (st_finished st) < length ?procs
                  then deadlock_result ?procs st else safe_result st)"
    using detect_final[of h matrix] by blast
  have fin: "distinct (st_finished st)" "set (st_finished st) \<subseteq> pid ` set ?procs"
      "st_safeSequence st = st_finished st"
    using inv by (simp_all add: loop_inv_def)
  show ?thesis
  proof (cases "length (st_finished st) < length ?procs")
    case True
    then have r': "?r = deadlock_result ?procs st" using r by simp
    have adm: "admitted_ids ?r = st_finished st"
      using r' admitted_deadlock_result[OF inv] by simp
    have dl: "deadlocked ?r = map pid (filter (\<lambda>p. pid p \<notin> set (st_finished st)) ?procs)"
      using r' by (simp add: deadlock_result_def Let_def)
    have d: "distinct (deadlocked ?r)"
      unfolding dl using assms by (rule distinct_map_filter)
    have "length ?procs = card (pid ` set ?procs)"
      using assms by (metis distinct_card length_map list.set_map)
    then have "card (set (st_finished st)) < card (pid ` set ?procs)"
      using True fin(1) by (simp add: distinct_card)
    then have "set (st_finished st) \<noteq> pid ` set ?procs" by auto
    then obtain p where "p \<in> set ?procs" "pid p \<notin> set (st_finished st)"
      using fin(2) by auto
    then have ne: "deadlocked ?r \<noteq> []"
      unfolding dl by (auto simp: filter_empty_conv)
    have sf: "safeSequence ?r = None" using r' by (simp add: deadlock_result_def Let_def)
    show ?thesis
      unfolding adm using fin d ne sf by (auto simp: dl)
  next
    case False
    then have r': "?r = safe_result st" using r by simp
    have adm: "admitted_ids ?r = st_finished st"
      using r' admitted_safe_result[OF inv] by simp
    have all: "set (st_finished st) = pid ` set ?procs"
      using finished_all[OF inv False] .
    have "deadlocked ?r = []" "safeSequence ?r = Some (st_finished st)"
      using r' fin by (simp_all add: safe_result_def)
    then show ?thesis
      unfolding adm using fin all by auto
  qed
qed

text \<open>
  C2, as stated, fails: an id admitted before the deadlock is found is in neither list,
  because \<open>safeSequence\<close> is null whenever the run deadlocks. In scenario A extended by a
  process \<open>P0\<close> that requests nothing, \<open>P0\<close> is admitted, then the run deadlocks.
\<close>

theorem coverage_counterexample:
  "distinct (map pid (processes scenario_C))
   \<and> ''P0'' \<in> set (map pid (processes scenario_C))
   \<and> safeSequence (snd (detectDeadlock heap_A scenario_C)) = None
   \<and> deadlocked (snd (detectDeadlock heap_A scenario_C)) = [''P1'', ''P2'']"
  by code_simp

text \<open>
  The amended coverage at the extended scenario A.
\<close>

theorem coverage_admitted_or_deadlocked_witness:
  "distinct (map pid (processes scenario_C))
   \<and> set (admitted_ids (snd (detectDeadlock heap_A scenario_C)))
           \<union> set (deadlocked (snd (detectDeadlock heap_A scenario_C))) = {''P0'', ''P1'', ''P2''}
   \<and> set (admitted_ids (snd (detectDeadlock heap_A scenario_C)))
           \<inter> set (deadlocked (snd (detectDeadlock heap_A scenario_C))) = {}"
proof -
  have d: "distinct (map pid (processes scenario_C))"
    by (simp add: scenario_defs)
  have "set (map pid (processes scenario_C)) = {''P0'', ''P1'', ''P2''}"
    by (auto simp: scenario_defs)
  then show ?thesis
    using d coverage_admitted_or_deadlocked[OF d, of heap_A] by simp
qed

lemma filter_nonempty_le_concat:
  "length (filter (\<lambda>s. f s \<noteq> []) xs) \<le> length (concat (map f xs))"
proof (induction xs)
  case Nil
  then show ?case by simp
next
  case (Cons x xs)
  then show ?case by (cases "f x") auto
qed

text \<open>
  C6. The loop is a total function: its termination proof shows that every round that
  does not end the loop admits a process that was not finished. The number of recorded
  admission steps is at most the number of processes, and the run records at most two more
  steps (the initial one and a final one). From every state, a round either admits exactly
  one process that was not finished and the loop goes on from the state after the
  admission, or it changes nothing and the loop ends with the deadlock or the safe result.
\<close>

theorem admission_rounds_bounded:
  "length (filter (\<lambda>s. processedThisRound s \<noteq> []) (steps (snd (detectDeadlock h matrix))))
      \<le> length (processes matrix)
   \<and> length (steps (snd (detectDeadlock h matrix))) \<le> length (processes matrix) + 2
   \<and> (\<forall>st.
         (\<exists>P\<in>set (processes matrix). pid P \<notin> set (st_finished st)
             \<and> scan (map pid (processes matrix)) st (processes matrix)
                  = (admit (map pid (processes matrix)) st P, True)
             \<and> st_finished (admit (map pid (processes matrix)) st P) = st_finished st @ [pid P]
             \<and> rounds (processes matrix) st
                  = rounds (processes matrix) (admit (map pid (processes matrix)) st P))
         \<or> (scan (map pid (processes matrix)) st (processes matrix) = (st, False)
             \<and> (rounds (processes matrix) st = deadlock_result (processes matrix) st
                \<or> rounds (processes matrix) st = safe_result st)))"
proof -
  let ?procs = "processes matrix"
  let ?r = "snd (detectDeadlock h matrix)"
  obtain st where inv: "loop_inv ?procs st"
    and r: "?r = (if length (st_finished st) < length ?procs
                  then deadlock_result ?procs st else safe_result st)"
    using detect_final[of h matrix] by blast
  have adm: "admitted_ids ?r = st_finished st"
    using r admitted_deadlock_result[OF inv] admitted_safe_result[OF inv] by simp
  have "length (filter (\<lambda>s. processedThisRound s \<noteq> []) (steps ?r)) \<le> length (admitted_ids ?r)"
    unfolding admitted_ids_def by (rule filter_nonempty_le_concat)
  also have "\<dots> \<le> length ?procs"
    unfolding adm by (rule finished_length_le[OF inv])
  finally have a: "length (filter (\<lambda>s. processedThisRound s \<noteq> []) (steps ?r)) \<le> length ?procs" .
  have "length (st_steps st) = Suc (length (st_finished st))"
    using inv by (simp add: loop_inv_def)
  then have "length (steps ?r) \<le> length (st_finished st) + 2"
    using r by (simp add: deadlock_result_def safe_result_def Let_def)
  then have "length (steps ?r) \<le> length ?procs + 2"
    using finished_length_le[OF inv] by simp
  moreover have "\<forall>st.
         (\<exists>P\<in>set ?procs. pid P \<notin> set (st_finished st)
             \<and> scan (map pid ?procs) st ?procs = (admit (map pid ?procs) st P, True)
             \<and> st_finished (admit (map pid ?procs) st P) = st_finished st @ [pid P]
             \<and> rounds ?procs st = rounds ?procs (admit (map pid ?procs) st P))
         \<or> (scan (map pid ?procs) st ?procs = (st, False)
             \<and> (rounds ?procs st = deadlock_result ?procs st
                \<or> rounds ?procs st = safe_result st))"
  proof
    fix st
    obtain st1 c where sc: "scan (map pid ?procs) st ?procs = (st1, c)"
      by (cases "scan (map pid ?procs) st ?procs")
    show "(\<exists>P\<in>set ?procs. pid P \<notin> set (st_finished st)
             \<and> scan (map pid ?procs) st ?procs = (admit (map pid ?procs) st P, True)
             \<and> st_finished (admit (map pid ?procs) st P) = st_finished st @ [pid P]
             \<and> rounds ?procs st = rounds ?procs (admit (map pid ?procs) st P))
         \<or> (scan (map pid ?procs) st ?procs = (st, False)
             \<and> (rounds ?procs st = deadlock_result ?procs st
                \<or> rounds ?procs st = safe_result st))"
    proof (cases c)
      case True
      then have sc': "scan (map pid ?procs) st ?procs = (st1, True)" using sc by simp
      then obtain P where P: "P \<in> set ?procs" "pid P \<notin> set (st_finished st)"
          "st1 = admit (map pid ?procs) st P"
        using scan_changed by blast
      have "st_finished (admit (map pid ?procs) st P) = st_finished st @ [pid P]"
        using P(2) by (simp add: admit_def Let_def set_add_def)
      moreover have "rounds ?procs st = rounds ?procs (admit (map pid ?procs) st P)"
        using rounds_changed[OF sc'] P(3) by simp
      ultimately show ?thesis using P sc' by blast
    next
      case False
      then have sc': "scan (map pid ?procs) st ?procs = (st1, False)" using sc by simp
      then have "st1 = st" using scan_unchanged by blast
      then show ?thesis using sc' rounds_stuck[OF sc'] by auto
    qed
  qed
  ultimately show ?thesis using a by blast
qed

section \<open>Properties of detectDeadlock\<close>

lemma detectDeadlock_heap:
  "fst (detectDeadlock h matrix)
     = fst (calculateAvailableResources (fst (deep_copy h matrix)) (snd (deep_copy h matrix)))"
  by (simp add: detectDeadlock_def split: prod.splits)

lemma deep_copy_props:
  "fst (deep_copy h matrix)
     = h @ map (\<lambda>a. (h ! a)\<lparr>available := json_copy (available (h ! a))\<rparr>) (resources matrix)"
  "resources (snd (deep_copy h matrix)) = [length h ..< length h + length (resources matrix)]"
  "processes (snd (deep_copy h matrix)) = processes matrix"
  by (simp_all add: deep_copy_def)

text \<open>
  C8. \<open>detectDeadlock\<close> works on fresh copies: every object that was in the store before
  the call, so every resource of the caller's matrix, has the same field values after it.
  \<open>generateResourceFlowGraph\<close> writes nothing. Processes and their allocation and request
  maps are never assigned to by any of the functions.
\<close>

theorem caller_matrix_unchanged:
  "take (length h) (fst (detectDeadlock h matrix)) = h
   \<and> fst (generateResourceFlowGraph h matrix) = h"
proof -
  let ?h1 = "fst (deep_copy h matrix)"
  let ?m1 = "snd (deep_copy h matrix)"
  let ?h2 = "fst (calculateAvailableResources ?h1 ?m1)"
  have fr: "same_frame ?h1 ?h2" and un: "unchanged_outside (set (resources ?m1)) ?h1 ?h2"
    using calculate_frame by blast+
  have len: "length ?h2 = length h + length (resources matrix)"
    using fr by (simp add: same_frame_def deep_copy_props)
  have "take (length h) ?h2 = h"
  proof (rule nth_equalityI)
    show "length (take (length h) ?h2) = length h" using len by simp
  next
    fix i assume "i < length (take (length h) ?h2)"
    then have i: "i < length h" by simp
    then have "i \<notin> set (resources ?m1)" by (simp add: deep_copy_props)
    then have "?h2 ! i = ?h1 ! i" using un by (simp add: unchanged_outside_def)
    also have "\<dots> = h ! i" using i by (simp add: deep_copy_props nth_append)
    finally show "take (length h) ?h2 ! i = h ! i" using i by simp
  qed
  then show ?thesis
    by (simp add: detectDeadlock_heap generateResourceFlowGraph_def Let_def)
qed

lemma collect_available_dom_gen:
  "dom (fold (\<lambda>a m. set_property m (rid (h ! a)) (available (h ! a))) rs m0)
     \<subseteq> dom m0 \<union> (\<lambda>a. rid (h ! a)) ` set rs"
proof (induction rs arbitrary: m0)
  case Nil
  then show ?case by simp
next
  case (Cons a rs)
  let ?m1 = "set_property m0 (rid (h ! a)) (available (h ! a))"
  have "dom (fold (\<lambda>a m. set_property m (rid (h ! a)) (available (h ! a))) (a # rs) m0)
          \<subseteq> dom ?m1 \<union> (\<lambda>a. rid (h ! a)) ` set rs"
    using Cons.IH[of ?m1] by simp
  also have "\<dots> \<subseteq> insert (rid (h ! a)) (dom m0) \<union> (\<lambda>a. rid (h ! a)) ` set rs"
    by (auto simp: set_property_def split: if_splits)
  also have "\<dots> = dom m0 \<union> (\<lambda>a. rid (h ! a)) ` set (a # rs)"
    by auto
  finally show ?case .
qed

lemma collect_available_dom: "dom (collect_available h rs) \<subseteq> (\<lambda>a. rid (h ! a)) ` set rs"
  using collect_available_dom_gen[of h rs Map.empty] by (simp add: collect_available_def)

lemma initial_available_dom:
  "dom (initial_available h matrix) \<subseteq> (\<lambda>a. rid (h ! a)) ` set (resources matrix)"
proof -
  let ?h1 = "fst (deep_copy h matrix)"
  let ?m1 = "snd (deep_copy h matrix)"
  let ?h2 = "fst (calculateAvailableResources ?h1 ?m1)"
  let ?n = "length (resources matrix)"
  have fr: "same_frame ?h1 ?h2" using calculate_frame by blast
  have "initial_available h matrix = collect_available ?h2 (resources ?m1)"
    by (simp add: initial_available_def calculate_unfold split: prod.splits)
  then have "dom (initial_available h matrix) \<subseteq> (\<lambda>a. rid (?h2 ! a)) ` set (resources ?m1)"
    by (simp add: collect_available_dom)
  also have "\<dots> = (\<lambda>a. rid (?h1 ! a)) ` set (resources ?m1)"
    using fr by (simp add: same_frame_def)
  also have "\<dots> = (\<lambda>i. rid (?h1 ! (length h + i))) ` {..<?n}"
  proof -
    have "set (resources ?m1) = (\<lambda>i. length h + i) ` {..<?n}"
    proof (rule set_eqI)
      fix y
      show "y \<in> set (resources ?m1) \<longleftrightarrow> y \<in> (\<lambda>i. length h + i) ` {..<?n}"
      proof
        assume "y \<in> set (resources ?m1)"
        then have "length h \<le> y" "y < length h + ?n" by (simp_all add: deep_copy_props)
        then have "y = length h + (y - length h)" "y - length h \<in> {..<?n}" by auto
        then show "y \<in> (\<lambda>i. length h + i) ` {..<?n}" by (rule image_eqI)
      next
        assume "y \<in> (\<lambda>i. length h + i) ` {..<?n}"
        then show "y \<in> set (resources ?m1)" by (auto simp: deep_copy_props)
      qed
    qed
    then show ?thesis by (simp add: image_image)
  qed
  also have "\<dots> = (\<lambda>i. rid (h ! (resources matrix ! i))) ` {..<?n}"
    by (intro image_cong) (simp_all add: deep_copy_props nth_append)
  also have "\<dots> = (\<lambda>a. rid (h ! a)) ` set (resources matrix)"
    by (auto simp: set_conv_nth image_iff)
  finally show ?thesis .
qed

lemma run_keeps_unknown:
  assumes "run procs st0 st"
    and "P \<in> set procs" "(x, q) \<in> set (request P)" "0 < q"
    and "x \<notin> set inherited_names"
    and "\<forall>Q\<in>set procs. x \<notin> fst ` set (allocation Q)"
    and "\<forall>Q\<in>set procs. pid Q = pid P \<longrightarrow> Q = P"
    and "x \<notin> dom (st_available st0)" "pid P \<notin> set (st_finished st0)"
  shows "x \<notin> dom (st_available st) \<and> pid P \<notin> set (st_finished st)"
  using assms
proof (induction rule: run.induct)
  case (run_start st)
  then show ?case by simp
next
  case (run_round st0 st1 st2)
  then have IH: "x \<notin> dom (st_available st1)" "pid P \<notin> set (st_finished st1)" by simp_all
  obtain p where p: "p \<in> set procs" "pid p \<notin> set (st_finished st1)"
      "canFinish (st_available st1) p" "st2 = admit (map pid procs) st1 p"
    using run_round.hyps(2) scan_changed by blast
  have "st_available st1 x = None" using IH(1) by auto
  then have "\<not> canFinish (st_available st1) P"
    using run_round.prems(2,3,4) by (intro canFinish_blocked)
  then have "p \<noteq> P" using p(3) by auto
  then have "pid p \<noteq> pid P" using run_round.prems(6) p(1) by auto
  moreover have "x \<notin> fst ` set (allocation p)" using run_round.prems(5) p(1) by blast
  then have "x \<notin> dom (release (allocation p) (st_available st1))"
    using IH(1) release_dom_subset[of "allocation p" "st_available st1"] by blast
  ultimately show ?case
    using IH p(4) by (simp add: admit_def Let_def set_add_def)
qed

text \<open>
  C10, amended. Let \<open>P\<close> be a process whose id no other process shares, with a request of
  a strictly positive amount for a resource id that is neither the id of a resource of the
  matrix nor a key of any allocation map, nor the name of a property that every object
  inherits. In every round that resource reads as 0 available and \<open>P\<close> cannot finish, so
  \<open>P\<close> is never admitted: the run deadlocks, and \<open>P\<close>'s id is in \<open>deadlocked\<close>.
\<close>

theorem unknown_request_never_admitted:
  assumes "P \<in> set (processes matrix)"
    and "(x, q) \<in> set (request P)" and "0 < q"
    and "x \<notin> set inherited_names"
    and "x \<notin> (\<lambda>a. rid (h ! a)) ` set (resources matrix)"
    and "\<forall>Q\<in>set (processes matrix). x \<notin> fst ` set (allocation Q)"
    and "\<forall>Q\<in>set (processes matrix). pid Q = pid P \<longrightarrow> Q = P"
  shows "safeSequence (snd (detectDeadlock h matrix)) = None
       \<and> pid P \<in> set (deadlocked (snd (detectDeadlock h matrix)))
       \<and> pid P \<notin> set (admitted_ids (snd (detectDeadlock h matrix)))
       \<and> (\<forall>st. at_round h matrix st
             \<longrightarrow> or_zero (get_property (st_available st) x) = Num (Finite 0)
                 \<and> \<not> canFinish (st_available st) P)"
proof -
  let ?procs = "processes matrix"
  let ?r = "snd (detectDeadlock h matrix)"
  let ?st0 = "initial_state ?procs (initial_available h matrix)"
  have x0: "x \<notin> dom (st_available ?st0)"
    using assms(5) initial_available_dom[of h matrix] by (auto simp: initial_state_simps)
  have p0: "pid P \<notin> set (st_finished ?st0)" by (simp add: initial_state_simps)
  have keep: "x \<notin> dom (st_available st) \<and> pid P \<notin> set (st_finished st)"
    if "at_round h matrix st" for st
    using run_keeps_unknown[OF _ assms(1,2,3,4,6,7) x0 p0] that by (simp add: at_round_def)
  have every: "or_zero (get_property (st_available st) x) = Num (Finite 0)
                 \<and> \<not> canFinish (st_available st) P"
    if "at_round h matrix st" for st
  proof -
    have none: "st_available st x = None" using keep[OF that] by auto
    then have "or_zero (get_property (st_available st) x) = Num (Finite 0)"
      using assms(4) by (simp add: get_property_def)
    moreover have "\<not> canFinish (st_available st) P"
      using assms(2,3) none assms(4) by (rule canFinish_blocked)
    ultimately show ?thesis by simp
  qed
  obtain st where at: "at_round h matrix st" and inv: "loop_inv ?procs st"
    and r: "?r = (if length (st_finished st) < length ?procs
                  then deadlock_result ?procs st else safe_result st)"
    using detect_final[of h matrix] by blast
  have nf: "pid P \<notin> set (st_finished st)" using keep[OF at] by simp
  have less: "length (st_finished st) < length ?procs"
    using finished_length_less[OF inv assms(1) nf] .
  then have r': "?r = deadlock_result ?procs st" using r by simp
  have "safeSequence ?r = None" using r' by (simp add: deadlock_result_def Let_def)
  moreover have "pid P \<in> set (deadlocked ?r)"
    using r' assms(1) nf by (simp add: deadlock_result_def Let_def)
  moreover have "pid P \<notin> set (admitted_ids ?r)"
    using r' admitted_deadlock_result[OF inv] nf by simp
  ultimately show ?thesis using every by blast
qed

text \<open>
  C10, as stated for every matrix, fails in two ways. When another process has the same
  id, the id counts as finished once that one is admitted, so it is not in \<open>deadlocked\<close>
  (which is empty here, while \<open>safeSequence\<close> is null). And when the unknown resource is
  named \<open>constructor\<close>, the request is compared with the inherited property, not with 0:
  the process is admitted and the run is safe.
\<close>

theorem unknown_request_counterexample:
  "P0_twin \<in> set (processes scenario_twin)
   \<and> (''R9'', 1) \<in> set (request P0_twin)
   \<and> ''R9'' \<notin> set (map rid heap_A)
   \<and> safeSequence (snd (detectDeadlock heap_A scenario_twin)) = None
   \<and> deadlocked (snd (detectDeadlock heap_A scenario_twin)) = []
   \<and> P4_constructor \<in> set (processes scenario_inherited)
   \<and> (''constructor'', 1) \<in> set (request P4_constructor)
   \<and> ''constructor'' \<notin> set (map rid heap_A)
   \<and> distinct (map pid (processes scenario_inherited))
   \<and> safeSequence (snd (detectDeadlock heap_A scenario_inherited)) = Some [''P0'', ''P4'']
   \<and> deadlocked (snd (detectDeadlock heap_A scenario_inherited)) = []"
  by code_simp

text \<open>
  A process \<open>P4\<close> requesting one unit of the unknown resource \<open>R9\<close>, next to \<open>P0\<close>.
\<close>

theorem unknown_request_never_admitted_witness:
  "P4 \<in> set (processes scenario_unknown)
   \<and> (''R9'', 1) \<in> set (request P4)
   \<and> ''R9'' \<notin> set inherited_names
   \<and> safeSequence (snd (detectDeadlock heap_A scenario_unknown)) = None
   \<and> pid P4 \<in> set (deadlocked (snd (detectDeadlock heap_A scenario_unknown)))"
proof -
  have h1: "P4 \<in> set (processes scenario_unknown)"
    by (simp add: scenario_unknown_def)
  have h2: "(''R9'', 1) \<in> set (request P4)" by (simp add: P4_def)
  have h3: "(0::int) < 1" by simp
  have hi: "''R9'' \<notin> set inherited_names" by (simp add: inherited_names_def)
  have h4: "''R9'' \<notin> (\<lambda>a. rid (heap_A ! a)) ` set (resources scenario_unknown)"
    by (simp add: scenario_unknown_def heap_A_def R1_def R2_def)
  have h5: "\<forall>Q\<in>set (processes scenario_unknown). ''R9'' \<notin> fst ` set (allocation Q)"
    by (simp add: scenario_unknown_def P4_def P0_def)
  have h6: "\<forall>Q\<in>set (processes scenario_unknown). pid Q = pid P4 \<longrightarrow> Q = P4"
    by (simp add: scenario_unknown_def P4_def P0_def)
  show ?thesis
    using h1 h2 hi unknown_request_never_admitted[OF h1 h2 h3 hi h4 h5 h6] by simp
qed

section \<open>The step descriptions\<close>







text \<open>
  The descriptions of scenarios B and A of the specification, computed.
\<close>

lemma scenario_B_descriptions:
  "map description (steps (snd (detectDeadlock heap_B scenario_B)))
     = [''Initial available resources'',
        ''Process P3 can be executed with the available resources. After completion, P3 releases its resources.'',
        ''Process P1 can be executed with the available resources. Its resource requests can be satisfied. After completion, P1 releases its resources.'',
        ''Process P2 can be executed with the available resources. Its resource requests can be satisfied. After completion, P2 releases its resources.'',
        ''All processes have been executed successfully. System is in a safe state. Safe sequence: P3''
          @ [CHR 0x20, CHR 0xE2, CHR 0x86, CHR 0x92, CHR 0x20] @ ''P1''
          @ [CHR 0x20, CHR 0xE2, CHR 0x86, CHR 0x92, CHR 0x20] @ ''P2'']"
  by code_simp

lemma scenario_A_descriptions:
  "map description (steps (snd (detectDeadlock heap_A scenario_A)))
     = [''Initial available resources'',
        ''No process can be satisfied with the available resources. Deadlock detected involving processes: P1, P2'']"
  by code_simp

section \<open>Properties of generateResourceFlowGraph\<close>

text \<open>
  C9, amended. The graph has one node per process and one per resource, the node id being
  the entity's id; its edges are, for every process in order, one allocation edge from the
  resource to the process for each allocation entry with a strictly positive amount, then
  one request edge from the process to the resource for each request entry with a strictly
  positive amount, each carrying the amount. The id of an edge is its source id, a hyphen
  and its target id.
\<close>

theorem graph_nodes_and_edges:
  "length (nodes (snd (generateResourceFlowGraph h matrix)))
     = length (processes matrix) + length (resources matrix)
   \<and> map node_id (nodes (snd (generateResourceFlowGraph h matrix)))
       = map pid (processes matrix) @ map (\<lambda>a. rid (h ! a)) (resources matrix)
   \<and> length (edges (snd (generateResourceFlowGraph h matrix)))
       = (\<Sum>p\<leftarrow>processes matrix.
            length (filter (\<lambda>entry. 0 < snd entry) (allocation p))
            + length (filter (\<lambda>entry. 0 < snd entry) (request p)))
   \<and> map (\<lambda>e. (edge_type e, source e, target e, edge_amount e))
          (edges (snd (generateResourceFlowGraph h matrix)))
       = concat (map (\<lambda>p. map (\<lambda>entry. (''allocation'', fst entry, pid p, snd entry))
                             (filter (\<lambda>entry. 0 < snd entry) (allocation p)))
                     (processes matrix))
         @ concat (map (\<lambda>p. map (\<lambda>entry. (''request'', pid p, fst entry, snd entry))
                               (filter (\<lambda>entry. 0 < snd entry) (request p)))
                       (processes matrix))
   \<and> list_all (\<lambda>e. edge_id e = source e @ ''-'' @ target e)
        (edges (snd (generateResourceFlowGraph h matrix)))"
proof -
  let ?g = "snd (generateResourceFlowGraph h matrix)"
  let ?ps = "processes matrix"
  have n: "nodes ?g = map process_node ?ps @ map (\<lambda>a. resource_node (h ! a)) (resources matrix)"
    and e: "edges ?g = concat (map allocation_edges_of ?ps) @ concat (map request_edges_of ?ps)"
    by (simp_all add: generateResourceFlowGraph_def Let_def)
  have c1: "length (nodes ?g) = length ?ps + length (resources matrix)"
    unfolding n by simp
  have c2: "map node_id (nodes ?g) = map pid ?ps @ map (\<lambda>a. rid (h ! a)) (resources matrix)"
    unfolding n by (simp add: process_node_def resource_node_def comp_def)
  have "length (edges ?g)
          = (\<Sum>p\<leftarrow>?ps. length (allocation_edges_of p)) + (\<Sum>p\<leftarrow>?ps. length (request_edges_of p))"
    unfolding e by (simp add: length_concat comp_def)
  also have "\<dots> = (\<Sum>p\<leftarrow>?ps. length (allocation_edges_of p) + length (request_edges_of p))"
    by (simp add: sum_list_addf)
  finally have c3: "length (edges ?g)
       = (\<Sum>p\<leftarrow>?ps. length (filter (\<lambda>entry. 0 < snd entry) (allocation p))
            + length (filter (\<lambda>entry. 0 < snd entry) (request p)))"
    by (simp add: allocation_edges_of_def request_edges_of_def)
  have c4: "map (\<lambda>e. (edge_type e, source e, target e, edge_amount e)) (edges ?g)
       = concat (map (\<lambda>p. map (\<lambda>entry. (''allocation'', fst entry, pid p, snd entry))
                             (filter (\<lambda>entry. 0 < snd entry) (allocation p))) ?ps)
         @ concat (map (\<lambda>p. map (\<lambda>entry. (''request'', pid p, fst entry, snd entry))
                               (filter (\<lambda>entry. 0 < snd entry) (request p))) ?ps)"
    unfolding e
    by (simp add: map_concat comp_def allocation_edges_of_def request_edges_of_def
          case_prod_beta)
  have c5: "list_all (\<lambda>e. edge_id e = source e @ ''-'' @ target e) (edges ?g)"
    unfolding e
    by (auto simp: list_all_iff allocation_edges_of_def request_edges_of_def)
  show ?thesis using c1 c2 c3 c4 c5 by blast
qed

text \<open>
  C9, as stated, fails on the edge ids: the template literal puts a hyphen between the two
  ids, so the edge from \<open>R1\<close> to \<open>P1\<close> has the id \<open>R1-P1\<close>, not the concatenation
  \<open>R1P1\<close>.
\<close>

theorem edge_id_counterexample:
  "edge_id (hd (edges (snd (generateResourceFlowGraph heap_A scenario_A)))) = ''R1-P1''
   \<and> source (hd (edges (snd (generateResourceFlowGraph heap_A scenario_A))))
       @ target (hd (edges (snd (generateResourceFlowGraph heap_A scenario_A)))) = ''R1P1''"
  by (simp add: generateResourceFlowGraph_def allocation_edges_of_def request_edges_of_def
        Let_def scenario_defs)

end
